theory Spec2Isabelle
  imports Complex_Main "HOL-Library.Sublist"
begin

section \<open>Stochastic-process generators: a shallow embedding\<close>

text \<open>
  The C++ sources embedded here are the three programs of
  \<^verbatim>\<open>PoissonProcess.cpp\<close>: the Poisson generators
  (\<^verbatim>\<open>simulateHomogeneousPoisson\<close>, \<^verbatim>\<open>simulateNonHomogeneousPoisson\<close>,
  \<^verbatim>\<open>simulateCompoundPoisson\<close>), the Markov chain stepper \<^verbatim>\<open>simMarkovChain\<close> and the
  random walk \<^verbatim>\<open>simRandomWalk\<close>.

  Conventions of the model.
  \<^item> The engine \<^verbatim>\<open>std::mt19937\<close> is a value of an arbitrary type \<open>'g\<close>. A distribution
    object of the standard library is a parameter: a function that takes the engine state
    and returns the variate together with the engine state after the draw. Mutation of the
    engine through the C++ reference is explicit state passing.
  \<^item> \<^verbatim>\<open>double\<close> is \<open>real\<close>, and the double addition \<^verbatim>\<open>+=\<close> of the two
    accumulating loops is a parameter \<open>dadd\<close>: \<open>dadd t dt\<close> is the double that
    \<^verbatim>\<open>t += dt\<close> stores, which is \<open>t\<close> itself where rounding absorbs \<open>dt\<close>. Exact
    addition is the instance \<open>(+)\<close>. The quotient of the thinning is real division;
    infinities and NaN are not modelled.
  \<^item> \<^verbatim>\<open>int\<close> is \<open>int\<close> with the 32-bit range written out where the source computes
    with it; a signed overflow and an access outside a vector are undefined behaviour in
    C++ and are error values of the model.
  \<^item> A loop that the source does not bound (\<^verbatim>\<open>while (true)\<close>) returns an option:
    \<open>None\<close> is a run that never leaves the loop.
  \<^item> Memory is not bounded: an allocation does not fail for want of memory.
\<close>

subsection \<open>Draw sequences of a distribution\<close>

text \<open>The first \<open>k\<close> variates a distribution \<open>d\<close> yields from engine state \<open>g\<close>, and the
  engine state after these \<open>k\<close> draws.\<close>

fun draws :: "('g \<Rightarrow> 'a \<times> 'g) \<Rightarrow> nat \<Rightarrow> 'g \<Rightarrow> 'a list" where
  "draws d 0 g = []"
| "draws d (Suc k) g = fst (d g) # draws d k (snd (d g))"

fun advance :: "('g \<Rightarrow> 'a \<times> 'g) \<Rightarrow> nat \<Rightarrow> 'g \<Rightarrow> 'g" where
  "advance d 0 g = g"
| "advance d (Suc k) g = advance d k (snd (d g))"

subsection \<open>Homogeneous Poisson process\<close>

text \<open>
  \<^verbatim>\<open>
  std::vector<double> simulateHomogeneousPoisson(double lambda, double T, std::mt19937 &rng)
  {
      std::vector<double> arrivalTimes;
      std::exponential_distribution<double> expDist(lambda);
      double t = 0.0;
      while (true)
      {
          double dt = expDist(rng);
          t += dt;
          if (t > T) break;
          arrivalTimes.push_back(t);
      }
      return arrivalTimes;
  }
  \<close>
  The loop is \<open>poisson_loop\<close>; its state is the clock \<open>t\<close>, the vector and the engine.
  \<open>expDist lambda\<close> is \<^verbatim>\<open>std::exponential_distribution<double>(lambda)\<close>, and
  \<open>dadd t dt\<close> is the value of \<open>t\<close> after \<^verbatim>\<open>t += dt\<close>.
\<close>

partial_function (option) poisson_loop ::
  "(real \<Rightarrow> real \<Rightarrow> real) \<Rightarrow> ('g \<Rightarrow> real \<times> 'g) \<Rightarrow> real \<Rightarrow> real \<Rightarrow> real list \<Rightarrow> 'g
     \<Rightarrow> (real list \<times> 'g) option" where
  "poisson_loop dadd expDist T t arrivalTimes rng =
     (case expDist rng of (dt, rng') \<Rightarrow>
        if dadd t dt > T then Some (arrivalTimes, rng')
        else poisson_loop dadd expDist T (dadd t dt) (arrivalTimes @ [dadd t dt]) rng')"

definition simulateHomogeneousPoisson ::
  "(real \<Rightarrow> real \<Rightarrow> real) \<Rightarrow> (real \<Rightarrow> 'g \<Rightarrow> real \<times> 'g) \<Rightarrow> real \<Rightarrow> real \<Rightarrow> 'g
     \<Rightarrow> (real list \<times> 'g) option" where
  "simulateHomogeneousPoisson dadd expDist lambda T rng =
     poisson_loop dadd (expDist lambda) T 0 [] rng"

text \<open>What the proofs take from \<^verbatim>\<open>std::exponential_distribution\<close>: for a rate
  \<open>lambda > 0\<close> its variates are not negative. They can be zero: libstdc++ computes
  \<^verbatim>\<open>-std::log(1 - u) / lambda\<close> from a canonical variate \<open>u\<close> in \<open>[0, 1)\<close>, which is
  \<open>0\<close> at \<open>u = 0\<close>.\<close>

definition exp_nonneg :: "(real \<Rightarrow> 'g \<Rightarrow> real \<times> 'g) \<Rightarrow> bool" where
  "exp_nonneg expDist \<longleftrightarrow> (\<forall>lambda g. 0 < lambda \<longrightarrow> 0 \<le> fst (expDist lambda g))"

text \<open>What the proofs take from double addition: adding a gap that is not negative does
  not move the clock back (rounding is monotone). It need not move it forward.\<close>

definition clock_monotone :: "(real \<Rightarrow> real \<Rightarrow> real) \<Rightarrow> bool" where
  "clock_monotone dadd \<longleftrightarrow> (\<forall>t dt. 0 \<le> dt \<longrightarrow> t \<le> dadd t dt)"

text \<open>The sum that \<^verbatim>\<open>+=\<close> accumulates from \<open>0.0\<close> over the values \<open>xs\<close>, in their
  order.\<close>

definition running_sum :: "(real \<Rightarrow> real \<Rightarrow> real) \<Rightarrow> real list \<Rightarrow> real" where
  "running_sum dadd xs = foldl dadd 0 xs"

text \<open>A concrete engine for evaluation: the state is a counter, and the \<open>k\<close>-th gap
  drawn is \<open>k / lambda\<close>.\<close>

definition tick_exp :: "real \<Rightarrow> nat \<Rightarrow> real \<times> nat" where
  "tick_exp lambda g = (real (Suc g) / lambda, Suc g)"

text \<open>Two more gap sequences on the counter engine. \<open>zero_gap_exp\<close> starts with the gap
  \<open>0\<close> (the variate of libstdc++ at \<open>u = 0\<close>); \<open>tiny_gap_exp\<close> draws the positive gaps
  \<open>1\<close>, \<open>1 / 2 ^ 53\<close> and then \<open>8\<close>, each divided by the rate. \<open>absorbing_add\<close> is
  an addition that absorbs a gap of at most \<open>t / 2 ^ 53\<close>, as double addition does at
  \<^verbatim>\<open>1.0 + 0x1p-53\<close>, and is exact otherwise.\<close>

definition zero_gap_exp :: "real \<Rightarrow> nat \<Rightarrow> real \<times> nat" where
  "zero_gap_exp lambda g = (if g = 0 then 0 else 1 / lambda, Suc g)"

definition tiny_gap_exp :: "real \<Rightarrow> nat \<Rightarrow> real \<times> nat" where
  "tiny_gap_exp lambda g =
     ((if g = 0 then 1 else if g = 1 then 1 / 2 ^ 53 else 8) / lambda, Suc g)"

definition absorbing_add :: "real \<Rightarrow> real \<Rightarrow> real" where
  "absorbing_add t dt = (if dt \<le> t / 2 ^ 53 then t else t + dt)"


subsection \<open>Non-homogeneous Poisson process (thinning)\<close>

text \<open>
  \<^verbatim>\<open>
  std::vector<double> candidateArrivals = simulateHomogeneousPoisson(lambdaMax, T, rng);
  std::vector<double> acceptedArrivals;
  std::uniform_real_distribution<double> U(0.0, 1.0);
  for (double arrivalTime : candidateArrivals)
  {
      double acceptProb = lambda_t(arrivalTime) / lambdaMax;
      if (U(rng) < acceptProb)
          acceptedArrivals.push_back(arrivalTime);
  }
  return acceptedArrivals;
  \<close>
  \<open>thinning\<close> is the range-for loop over the candidates; \<open>U\<close> is the object
  \<^verbatim>\<open>std::uniform_real_distribution<double>(0.0, 1.0)\<close>, \<open>lambda_t\<close> the rate function.
\<close>

fun thinning ::
  "('g \<Rightarrow> real \<times> 'g) \<Rightarrow> (real \<Rightarrow> real) \<Rightarrow> real \<Rightarrow> real list \<Rightarrow> real list \<Rightarrow> 'g
     \<Rightarrow> real list \<times> 'g" where
  "thinning U lambda_t lambdaMax [] acceptedArrivals rng = (acceptedArrivals, rng)"
| "thinning U lambda_t lambdaMax (arrivalTime # rest) acceptedArrivals rng =
     (let acceptProb = lambda_t arrivalTime / lambdaMax in
      case U rng of (u, rng') \<Rightarrow>
        if u < acceptProb
        then thinning U lambda_t lambdaMax rest (acceptedArrivals @ [arrivalTime]) rng'
        else thinning U lambda_t lambdaMax rest acceptedArrivals rng')"

definition simulateNonHomogeneousPoisson ::
  "(real \<Rightarrow> real \<Rightarrow> real) \<Rightarrow> (real \<Rightarrow> 'g \<Rightarrow> real \<times> 'g) \<Rightarrow> ('g \<Rightarrow> real \<times> 'g) \<Rightarrow> (real \<Rightarrow> real)
     \<Rightarrow> real \<Rightarrow> real \<Rightarrow> 'g \<Rightarrow> (real list \<times> 'g) option" where
  "simulateNonHomogeneousPoisson dadd expDist U lambda_t lambdaMax T rng =
     (case simulateHomogeneousPoisson dadd expDist lambdaMax T rng of
        None \<Rightarrow> None
      | Some (candidateArrivals, rng1) \<Rightarrow>
          Some (thinning U lambda_t lambdaMax candidateArrivals [] rng1))"

text \<open>The contract of \<^verbatim>\<open>std::uniform_real_distribution<double>(0.0, 1.0)\<close>: it
  produces variates \<open>x\<close> with \<open>0 \<le> x < 1\<close> (C++ standard, rand.dist.uni.real).\<close>

definition unit_uniform :: "('g \<Rightarrow> real \<times> 'g) \<Rightarrow> bool" where
  "unit_uniform U \<longleftrightarrow> (\<forall>g. 0 \<le> fst (U g) \<and> fst (U g) < 1)"

text \<open>The candidates the loop accepts, in the words of the thinning rule: candidate
  number \<open>k\<close> is kept when the \<open>k\<close>-th uniform variate is below
  \<open>lambda_t t / lambdaMax\<close>.\<close>

definition accepted_candidates ::
  "(real \<Rightarrow> real) \<Rightarrow> real \<Rightarrow> real list \<Rightarrow> real list \<Rightarrow> real list" where
  "accepted_candidates lambda_t lambdaMax candidates us =
     map fst (filter (\<lambda>(t, u). u < lambda_t t / lambdaMax) (zip candidates us))"

subsection \<open>Compound Poisson process\<close>

text \<open>
  \<^verbatim>\<open>
  std::vector<std::pair<double,double>> processPath;
  std::vector<double> arrivalTimes = simulateHomogeneousPoisson(lambda, T, rng);
  double compoundValue = 0.0;
  for (double t : arrivalTimes)
  {
      double jumpSize = jumpGenerator(rng);
      compoundValue += jumpSize;
      processPath.push_back({t, compoundValue});
  }
  return processPath;
  \<close>
  \<open>jumpGenerator\<close> is the callback \<^verbatim>\<open>std::function<double(std::mt19937 &)>\<close>: it
  reads and advances the engine it is handed. \<open>dadd compoundValue jumpSize\<close> is the value
  of \<^verbatim>\<open>compoundValue\<close> after \<^verbatim>\<open>compoundValue += jumpSize\<close>.
\<close>

fun compound_loop ::
  "(real \<Rightarrow> real \<Rightarrow> real) \<Rightarrow> ('g \<Rightarrow> real \<times> 'g) \<Rightarrow> real list \<Rightarrow> real \<Rightarrow> (real \<times> real) list \<Rightarrow> 'g
     \<Rightarrow> (real \<times> real) list \<times> 'g" where
  "compound_loop dadd jumpGenerator [] compoundValue processPath rng = (processPath, rng)"
| "compound_loop dadd jumpGenerator (t # rest) compoundValue processPath rng =
     (case jumpGenerator rng of (jumpSize, rng') \<Rightarrow>
        compound_loop dadd jumpGenerator rest (dadd compoundValue jumpSize)
          (processPath @ [(t, dadd compoundValue jumpSize)]) rng')"

definition simulateCompoundPoisson ::
  "(real \<Rightarrow> real \<Rightarrow> real) \<Rightarrow> (real \<Rightarrow> 'g \<Rightarrow> real \<times> 'g) \<Rightarrow> real \<Rightarrow> real \<Rightarrow> 'g
     \<Rightarrow> ('g \<Rightarrow> real \<times> 'g) \<Rightarrow> ((real \<times> real) list \<times> 'g) option" where
  "simulateCompoundPoisson dadd expDist lambda T rng jumpGenerator =
     (case simulateHomogeneousPoisson dadd expDist lambda T rng of
        None \<Rightarrow> None
      | Some (arrivalTimes, rng1) \<Rightarrow>
          Some (compound_loop dadd jumpGenerator arrivalTimes 0 [] rng1))"

text \<open>Concrete distributions on the counter engine, for evaluation: the uniform variate
  alternates between \<open>1/4\<close> and \<open>3/4\<close>, the jump is the counter itself.\<close>

definition tick_uniform :: "nat \<Rightarrow> real \<times> nat" where
  "tick_uniform g = (if even g then 1 / 4 else 3 / 4, Suc g)"

definition tick_jump :: "nat \<Rightarrow> real \<times> nat" where
  "tick_jump g = (real g, Suc g)"

subsection \<open>Vectors and machine integers\<close>

text \<open>
  The ways a call of \<^verbatim>\<open>simMarkovChain\<close> or \<^verbatim>\<open>simRandomWalk\<close> can end without a path.
  \<open>LengthError\<close> is the \<^verbatim>\<open>std::length_error\<close> that the vector constructor throws for a
  size beyond \<^verbatim>\<open>max_size()\<close>; \<open>OutOfBounds\<close> (an index outside a vector) and
  \<open>SignedOverflow\<close> are undefined behaviour in C++. \<open>InvalidParameter\<close> is the error
  kind of the specification; no statement of the source raises it.
\<close>

datatype error = InvalidParameter | LengthError | OutOfBounds | SignedOverflow

definition INT_MAX :: int where
  "INT_MAX = 2147483647"

definition INT_MIN :: int where
  "INT_MIN = - 2147483648"

text \<open>\<^verbatim>\<open>a + b\<close> on \<^verbatim>\<open>int\<close>.\<close>

definition int_add :: "int \<Rightarrow> int \<Rightarrow> error + int" where
  "int_add a b =
     (if INT_MIN \<le> a + b \<and> a + b \<le> INT_MAX then Inr (a + b) else Inl SignedOverflow)"

text \<open>\<^verbatim>\<open>std::vector<T> v(count, a)\<close> with an \<^verbatim>\<open>int\<close> count: a negative count
  converts to a \<^verbatim>\<open>size_t\<close> above \<^verbatim>\<open>max_size()\<close>.\<close>

definition vec_new :: "int \<Rightarrow> 'a \<Rightarrow> error + 'a list" where
  "vec_new count a = (if count < 0 then Inl LengthError else Inr (replicate (nat count) a))"

text \<open>\<^verbatim>\<open>v[i]\<close> read and written, the index an \<^verbatim>\<open>int\<close>.\<close>

definition vec_get :: "'a list \<Rightarrow> int \<Rightarrow> error + 'a" where
  "vec_get v i = (if 0 \<le> i \<and> i < int (length v) then Inr (v ! nat i) else Inl OutOfBounds)"

definition vec_set :: "'a list \<Rightarrow> int \<Rightarrow> 'a \<Rightarrow> error + 'a list" where
  "vec_set v i a =
     (if 0 \<le> i \<and> i < int (length v) then Inr (v[nat i := a]) else Inl OutOfBounds)"

subsection \<open>Markov chain\<close>

text \<open>
  \<^verbatim>\<open>
  std::vector<int> simMarkovChain(const std::vector<std::vector<double>>& p, int x0, int n)
  {
      static std::random_device rd;
      static std::mt19937 gen(rd());
      std::vector<int> x(n + 1);
      x[0] = x0;
      int nrStates = static_cast<int>(p.size());
      for(int i = 1; i <= n; i++)
      {
          std::discrete_distribution<int> dist(p[x[i - 1]].begin(), p[x[i - 1]].end());
          x[i] = dist(gen);
      }
      return x;
  }
  \<close>
  The function has no engine parameter: \<^verbatim>\<open>gen\<close> is a function-local static object,
  seeded from \<^verbatim>\<open>std::random_device\<close> when the first call reaches it and kept between
  calls. The model's argument \<open>gen\<close> is the value of that object when the call starts, and
  the result carries its value when the call ends. \<open>discrete row\<close> is
  \<^verbatim>\<open>std::discrete_distribution<int>\<close> built from the weights \<open>row\<close>. The loop is
  entered only where \<^verbatim>\<open>n + 1\<close> did not overflow, so the counter's \<^verbatim>\<open>i++\<close> stays in
  range and is plain addition.
\<close>

function mc_loop ::
  "(real list \<Rightarrow> 'g \<Rightarrow> int \<times> 'g) \<Rightarrow> real list list \<Rightarrow> int \<Rightarrow> int \<Rightarrow> int list \<Rightarrow> 'g
     \<Rightarrow> error + (int list \<times> 'g)" where
  "mc_loop discrete p n i x gen =
     (if i \<le> n then
        (case vec_get x (i - 1) of
           Inl e \<Rightarrow> Inl e
         | Inr s \<Rightarrow>
             (case vec_get p s of
                Inl e \<Rightarrow> Inl e
              | Inr row \<Rightarrow>
                  (case discrete row gen of (j, gen') \<Rightarrow>
                     (case vec_set x i j of
                        Inl e \<Rightarrow> Inl e
                      | Inr x' \<Rightarrow> mc_loop discrete p n (i + 1) x' gen'))))
      else Inr (x, gen))"
  by pat_completeness auto
termination
  by (relation "measure (\<lambda>(discrete, p, n, i, x, gen). nat (n + 1 - i))") auto

definition simMarkovChain ::
  "(real list \<Rightarrow> 'g \<Rightarrow> int \<times> 'g) \<Rightarrow> real list list \<Rightarrow> int \<Rightarrow> int \<Rightarrow> 'g
     \<Rightarrow> error + (int list \<times> 'g)" where
  "simMarkovChain discrete p x0 n gen =
     (if n + 1 > INT_MAX then Inl SignedOverflow
      else case vec_new (n + 1) 0 of
             Inl e \<Rightarrow> Inl e
           | Inr x \<Rightarrow>
               (case vec_set x 0 x0 of
                  Inl e \<Rightarrow> Inl e
                | Inr x' \<Rightarrow> mc_loop discrete p n 1 x' gen))"

text \<open>What the proofs take from \<^verbatim>\<open>std::discrete_distribution<int>\<close>: built from
  \<open>n\<close> weights it produces an index \<open>i\<close> with \<open>0 \<le> i < n\<close> (from no weights:
  \<open>n = 1\<close>). The index need not have positive weight: libstdc++ searches the cumulative
  weights for the first one that is not below the canonical variate, which at variate
  \<open>0\<close> is index \<open>0\<close> whatever its weight.\<close>

definition discrete_in_range :: "(real list \<Rightarrow> 'g \<Rightarrow> int \<times> 'g) \<Rightarrow> bool" where
  "discrete_in_range discrete \<longleftrightarrow>
     (\<forall>row g. 0 \<le> fst (discrete row g) \<and> fst (discrete row g) < max 1 (int (length row)))"

text \<open>The transition matrix of the specification: square, entries non-negative, every
  row summing to \<open>1\<close> within the tolerance \<open>eps\<close> (exactly, for \<open>eps = 0\<close>).\<close>

definition square :: "real list list \<Rightarrow> bool" where
  "square p \<longleftrightarrow> (\<forall>row\<in>set p. length row = length p)"

definition valid_matrix :: "real \<Rightarrow> real list list \<Rightarrow> bool" where
  "valid_matrix eps p \<longleftrightarrow>
     square p \<and> (\<forall>row\<in>set p. (\<forall>w\<in>set row. 0 \<le> w) \<and> \<bar>sum_list row - 1\<bar> \<le> eps)"

text \<open>The engine state before step \<open>k + 1\<close> of a run along the path \<open>x\<close>: every step
  draws once, from the distribution of the row of the current state.\<close>

fun chain_engine ::
  "(real list \<Rightarrow> 'g \<Rightarrow> int \<times> 'g) \<Rightarrow> real list list \<Rightarrow> int list \<Rightarrow> nat \<Rightarrow> 'g \<Rightarrow> 'g" where
  "chain_engine discrete p x 0 gen = gen"
| "chain_engine discrete p x (Suc k) gen =
     snd (discrete (p ! nat (x ! k)) (chain_engine discrete p x k gen))"

text \<open>The states after the start in the words of the specification: each one is a
  categorical draw from the row of the state before it. \<open>chain_from discrete p k s g\<close>
  lists the \<open>k\<close> states that follow \<open>s\<close>, and \<open>chain_end\<close> is the engine after them.\<close>

fun chain_from ::
  "(real list \<Rightarrow> 'g \<Rightarrow> int \<times> 'g) \<Rightarrow> real list list \<Rightarrow> nat \<Rightarrow> int \<Rightarrow> 'g \<Rightarrow> int list" where
  "chain_from discrete p 0 s g = []"
| "chain_from discrete p (Suc k) s g =
     fst (discrete (p ! nat s) g)
       # chain_from discrete p k (fst (discrete (p ! nat s) g)) (snd (discrete (p ! nat s) g))"

fun chain_end ::
  "(real list \<Rightarrow> 'g \<Rightarrow> int \<times> 'g) \<Rightarrow> real list list \<Rightarrow> nat \<Rightarrow> int \<Rightarrow> 'g \<Rightarrow> 'g" where
  "chain_end discrete p 0 s g = g"
| "chain_end discrete p (Suc k) s g =
     chain_end discrete p k (fst (discrete (p ! nat s) g)) (snd (discrete (p ! nat s) g))"

subsection \<open>Random walk\<close>

text \<open>
  \<^verbatim>\<open>
  std::vector<int> simRandomWalk(double p, int n) {
      static std::random_device rd;
      static std::mt19937 gen(rd());
      std::bernoulli_distribution dist(p);
      std::vector<int> positions(n+1, 0);
      for(int i = 1 ; i <= n; i++) {
          int step = dist(gen) ? +1 : -1;
          positions[i] = positions[i-1] + step;
      }
      return positions;
  }
  \<close>
  As in \<^verbatim>\<open>simMarkovChain\<close> the engine is a function-local static object, and \<open>gen\<close> is
  its value when the call starts. \<open>bernoulli p\<close> is \<^verbatim>\<open>std::bernoulli_distribution(p)\<close>,
  the object \<^verbatim>\<open>dist\<close> of the source (\<open>dist_b\<close> in the loop).
\<close>

function rw_loop ::
  "('g \<Rightarrow> bool \<times> 'g) \<Rightarrow> int \<Rightarrow> int \<Rightarrow> int list \<Rightarrow> 'g \<Rightarrow> error + (int list \<times> 'g)" where
  "rw_loop dist_b n i positions gen =
     (if i \<le> n then
        (case dist_b gen of (b, gen') \<Rightarrow>
           let step = (if b then 1 else - 1) in
           (case vec_get positions (i - 1) of
              Inl e \<Rightarrow> Inl e
            | Inr prev \<Rightarrow>
                (case int_add prev step of
                   Inl e \<Rightarrow> Inl e
                 | Inr v \<Rightarrow>
                     (case vec_set positions i v of
                        Inl e \<Rightarrow> Inl e
                      | Inr positions' \<Rightarrow> rw_loop dist_b n (i + 1) positions' gen'))))
      else Inr (positions, gen))"
  by pat_completeness auto
termination
  by (relation "measure (\<lambda>(dist_b, n, i, positions, gen). nat (n + 1 - i))") auto

definition simRandomWalk ::
  "(real \<Rightarrow> 'g \<Rightarrow> bool \<times> 'g) \<Rightarrow> real \<Rightarrow> int \<Rightarrow> 'g \<Rightarrow> error + (int list \<times> 'g)" where
  "simRandomWalk bernoulli p n gen =
     (if n + 1 > INT_MAX then Inl SignedOverflow
      else case vec_new (n + 1) 0 of
             Inl e \<Rightarrow> Inl e
           | Inr positions \<Rightarrow> rw_loop (bernoulli p) n 1 positions gen)"

text \<open>The positions after the start in the words of the specification: each one is
  the position before it, plus one on a Bernoulli success and minus one on a failure.
  \<open>walk_from d k prev g\<close> lists the \<open>k\<close> positions that follow \<open>prev\<close>.\<close>

fun walk_from :: "('g \<Rightarrow> bool \<times> 'g) \<Rightarrow> nat \<Rightarrow> int \<Rightarrow> 'g \<Rightarrow> int list" where
  "walk_from d 0 prev g = []"
| "walk_from d (Suc k) prev g =
     (prev + (if fst (d g) then 1 else - 1))
       # walk_from d k (prev + (if fst (d g) then 1 else - 1)) (snd (d g))"

text \<open>Concrete distributions on the counter engine, for evaluation: the Bernoulli variate
  is true on even counters, and the categorical variate is the counter modulo the number
  of weights where that index has positive weight, else the first index of positive
  weight.\<close>

definition tick_bernoulli :: "real \<Rightarrow> nat \<Rightarrow> bool \<times> nat" where
  "tick_bernoulli p g = (even g, Suc g)"

fun first_positive :: "real list \<Rightarrow> nat" where
  "first_positive [] = 0"
| "first_positive (w # ws) = (if 0 < w then 0 else Suc (first_positive ws))"

definition tick_discrete :: "real list \<Rightarrow> nat \<Rightarrow> int \<times> nat" where
  "tick_discrete row g =
     (let j = g mod (max 1 (length row)); f = first_positive row
      in (int (if j < length row \<and> 0 < row ! j then j else if f < length row then f else 0),
          Suc g))"

text \<open>The categorical variate of libstdc++ at canonical variate \<open>0\<close>: index \<open>0\<close>.\<close>

definition first_index :: "real list \<Rightarrow> nat \<Rightarrow> int \<times> nat" where
  "first_index row g = (0, Suc g)"

text \<open>The transition matrix of the specification's scenario.\<close>

definition example_matrix :: "real list list" where
  "example_matrix = [[0.2, 0.3, 0.5], [0, 0.3, 0.7], [0.5, 0.4, 0.1]]"

section \<open>Properties\<close>

subsection \<open>Homogeneous Poisson process\<close>

lemma exp_nonneg_tick_exp: "exp_nonneg tick_exp"
  by (simp add: exp_nonneg_def tick_exp_def)

lemma clock_monotone_plus: "clock_monotone (+)"
  by (simp add: clock_monotone_def)

lemma poisson_loop_invariant:
  assumes "poisson_loop dadd expDist T t acc rng = Some (res, rng')"
      and "\<forall>g. 0 \<le> fst (expDist g)" and "clock_monotone dadd"
      and "sorted_wrt (\<le>) acc" and "\<forall>x\<in>set acc. 0 \<le> x \<and> x \<le> t \<and> x \<le> T" and "0 \<le> t"
  shows "sorted_wrt (\<le>) res \<and> (\<forall>x\<in>set res. 0 \<le> x \<and> x \<le> T)"
proof -
  have "(\<forall>g. 0 \<le> fst (expDist g)) \<longrightarrow> clock_monotone dadd \<longrightarrow> sorted_wrt (\<le>) acc \<longrightarrow>
        (\<forall>x\<in>set acc. 0 \<le> x \<and> x \<le> t \<and> x \<le> T) \<longrightarrow> 0 \<le> t \<longrightarrow>
        sorted_wrt (\<le>) (fst y) \<and> (\<forall>x\<in>set (fst y). 0 \<le> x \<and> x \<le> T)"
    if "poisson_loop dadd expDist T t acc rng = Some y" for y
    using that
  proof (induction rule: poisson_loop.raw_induct[rotated 1, consumes 1])
    case (1 loop dadd expDist T t acc rng y)
    show ?case
    proof (intro impI)
      assume nonneg: "\<forall>g. 0 \<le> fst (expDist g)" and mono: "clock_monotone dadd"
        and sorted: "sorted_wrt (\<le>) acc"
        and bound: "\<forall>x\<in>set acc. 0 \<le> x \<and> x \<le> t \<and> x \<le> T" and t0: "0 \<le> t"
      obtain dt g1 where d: "expDist rng = (dt, g1)" by (cases "expDist rng")
      from nonneg have "0 \<le> fst (expDist rng)" by blast
      with d have "0 \<le> dt" by simp
      with mono have adv: "t \<le> dadd t dt" by (simp add: clock_monotone_def)
      show "sorted_wrt (\<le>) (fst y) \<and> (\<forall>x\<in>set (fst y). 0 \<le> x \<and> x \<le> T)"
      proof (cases "dadd t dt > T")
        case True
        with "1.hyps" d have "y = (acc, g1)" by simp
        with sorted bound show ?thesis by simp
      next
        case False
        with "1.hyps" d
        have call: "loop dadd expDist T (dadd t dt) (acc @ [dadd t dt]) g1 = Some y"
          by simp
        have s: "sorted_wrt (\<le>) (acc @ [dadd t dt])"
          using sorted bound adv by (fastforce simp: sorted_wrt_append)
        have b: "\<forall>x\<in>set (acc @ [dadd t dt]). 0 \<le> x \<and> x \<le> dadd t dt \<and> x \<le> T"
          using bound adv t0 False by fastforce
        have "0 \<le> dadd t dt" using adv t0 by simp
        with "1.IH"[OF call] nonneg mono s b show ?thesis by blast
      qed
    qed
  qed
  from this[OF assms(1)] assms(2-) show ?thesis by simp
qed





subsection \<open>Thinning\<close>

lemma clock_monotone_absorbing: "clock_monotone absorbing_add"
  by (simp add: clock_monotone_def absorbing_add_def)

lemma exp_nonneg_zero_gap: "exp_nonneg zero_gap_exp"
  by (simp add: exp_nonneg_def zero_gap_exp_def)

lemma exp_nonneg_tiny_gap: "exp_nonneg tiny_gap_exp"
  by (simp add: exp_nonneg_def tiny_gap_exp_def)

lemma sorted_wrt_subseq:
  "subseq xs ys \<Longrightarrow> sorted_wrt P ys \<Longrightarrow> sorted_wrt P xs"
proof (induction rule: list_emb.induct)
  case (list_emb_Nil ys)
  then show ?case by simp
next
  case (list_emb_Cons xs ys y)
  then show ?case by simp
next
  case (list_emb_Cons2 x y xs ys)
  then have "set xs \<subseteq> set ys" by (auto elim: list_emb_set)
  with list_emb_Cons2 show ?case by auto
qed

lemma draws_length: "length (draws d k g) = k"
  by (induction k arbitrary: g) simp_all

lemma thinning_eq:
  "thinning U lambda_t lambdaMax cs acc g =
     (acc @ accepted_candidates lambda_t lambdaMax cs (draws U (length cs) g),
      advance U (length cs) g)"
proof (induction cs arbitrary: acc g)
  case Nil
  then show ?case by (simp add: accepted_candidates_def)
next
  case (Cons c cs)
  obtain u g1 where d: "U g = (u, g1)" by (cases "U g")
  show ?case
    using Cons.IH[of _ g1] d by (simp add: accepted_candidates_def)
qed

lemma subseq_accepted_candidates:
  "subseq (accepted_candidates lambda_t lambdaMax cs us) cs"
proof (induction cs arbitrary: us)
  case Nil
  then show ?case by (simp add: accepted_candidates_def)
next
  case (Cons c cs)
  show ?case
  proof (cases us)
    case Nil
    then show ?thesis by (simp add: accepted_candidates_def)
  next
    case (Cons u us')
    with Cons.IH[of us'] show ?thesis
      by (auto simp: accepted_candidates_def)
  qed
qed

lemma accepted_candidates_member:
  assumes "distinct cs" and "length us = length cs" and "k < length cs"
  shows "cs ! k \<in> set (accepted_candidates lambda_t lambdaMax cs us)
         \<longleftrightarrow> us ! k < lambda_t (cs ! k) / lambdaMax"
proof
  assume "cs ! k \<in> set (accepted_candidates lambda_t lambdaMax cs us)"
  then obtain u where m: "(cs ! k, u) \<in> set (zip cs us)" and a: "u < lambda_t (cs ! k) / lambdaMax"
    by (auto simp: accepted_candidates_def)
  from m obtain j where j: "j < length cs" "cs ! j = cs ! k" "us ! j = u"
    using assms(2) by (auto simp: set_zip)
  with assms(1,3) have "j = k" by (simp add: nth_eq_iff_index_eq)
  with j a show "us ! k < lambda_t (cs ! k) / lambdaMax" by simp
next
  assume a: "us ! k < lambda_t (cs ! k) / lambdaMax"
  have "(cs ! k, us ! k) \<in> set (zip cs us)"
    using assms(2,3) by (auto simp: set_zip)
  with a show "cs ! k \<in> set (accepted_candidates lambda_t lambdaMax cs us)"
    by (force simp: accepted_candidates_def)
qed


text \<open>
  C3, as the code has it. For \<open>lambdaMax > 0\<close> and \<open>T \<ge> 0\<close>,
  \<open>simulateNonHomogeneousPoisson\<close> first runs \<open>simulateHomogeneousPoisson\<close> with rate
  \<open>lambdaMax\<close>; where that returns the candidates, it keeps candidate number \<open>k\<close> exactly
  when the \<open>k\<close>-th uniform variate (one draw per candidate, in order, from the engine the
  candidate run left) is below \<open>lambda_t t / lambdaMax\<close>. The output is a subsequence of
  the candidates in their order, hence non-decreasing; where the candidates are strictly
  increasing, so is the output, and a candidate time is in the output exactly when its
  draw is below the ratio. Where the candidate run does not return, neither does the
  thinning.
\<close>

theorem thinning_keeps_draws_below_ratio:
  assumes "0 < lambdaMax" and "0 \<le> T" and "exp_nonneg expDist" and "clock_monotone dadd"
  shows "(\<forall>candidates rng1.
            simulateHomogeneousPoisson dadd expDist lambdaMax T rng = Some (candidates, rng1) \<longrightarrow>
            (\<exists>accepted.
               simulateNonHomogeneousPoisson dadd expDist U lambda_t lambdaMax T rng
                 = Some (accepted, advance U (length candidates) rng1)
               \<and> accepted = accepted_candidates lambda_t lambdaMax candidates
                              (draws U (length candidates) rng1)
               \<and> subseq accepted candidates \<and> sorted_wrt (\<le>) accepted
               \<and> (sorted_wrt (<) candidates \<longrightarrow>
                    sorted_wrt (<) accepted
                    \<and> (\<forall>k<length candidates.
                          candidates ! k \<in> set accepted \<longleftrightarrow>
                          draws U (length candidates) rng1 ! k
                            < lambda_t (candidates ! k) / lambdaMax))))
       \<and> (simulateHomogeneousPoisson dadd expDist lambdaMax T rng = None \<longrightarrow>
            simulateNonHomogeneousPoisson dadd expDist U lambda_t lambdaMax T rng = None)"
proof (intro conjI allI impI)
  fix candidates rng1
  assume h: "simulateHomogeneousPoisson dadd expDist lambdaMax T rng = Some (candidates, rng1)"
  let ?us = "draws U (length candidates) rng1"
  let ?acc = "accepted_candidates lambda_t lambdaMax candidates ?us"
  have nonneg: "\<forall>g. 0 \<le> fst (expDist lambdaMax g)"
    using assms(1,3) by (simp add: exp_nonneg_def)
  from h have "poisson_loop dadd (expDist lambdaMax) T 0 [] rng = Some (candidates, rng1)"
    by (simp add: simulateHomogeneousPoisson_def)
  from poisson_loop_invariant[OF this nonneg assms(4)]
  have inc: "sorted_wrt (\<le>) candidates" by simp
  have run: "simulateNonHomogeneousPoisson dadd expDist U lambda_t lambdaMax T rng
               = Some (?acc, advance U (length candidates) rng1)"
    using h by (simp add: simulateNonHomogeneousPoisson_def thinning_eq)
  have sub: "subseq ?acc candidates" by (rule subseq_accepted_candidates)
  from sub inc have nd: "sorted_wrt (\<le>) ?acc" by (rule sorted_wrt_subseq)
  have strict: "sorted_wrt (<) candidates \<longrightarrow>
                  sorted_wrt (<) ?acc
                  \<and> (\<forall>k<length candidates.
                        candidates ! k \<in> set ?acc \<longleftrightarrow>
                        ?us ! k < lambda_t (candidates ! k) / lambdaMax)"
  proof
    assume st: "sorted_wrt (<) candidates"
    then have dist: "distinct candidates" by (simp add: strict_sorted_iff)
    from sub st have "sorted_wrt (<) ?acc" by (rule sorted_wrt_subseq)
    moreover have "\<forall>k<length candidates.
                     candidates ! k \<in> set ?acc \<longleftrightarrow>
                     ?us ! k < lambda_t (candidates ! k) / lambdaMax"
      using accepted_candidates_member[OF dist] by (simp add: draws_length)
    ultimately show "sorted_wrt (<) ?acc
                  \<and> (\<forall>k<length candidates.
                        candidates ! k \<in> set ?acc \<longleftrightarrow>
                        ?us ! k < lambda_t (candidates ! k) / lambdaMax)"
      by blast
  qed
  from run sub nd strict
  show "\<exists>accepted.
          simulateNonHomogeneousPoisson dadd expDist U lambda_t lambdaMax T rng
            = Some (accepted, advance U (length candidates) rng1)
          \<and> accepted = ?acc
          \<and> subseq accepted candidates \<and> sorted_wrt (\<le>) accepted
          \<and> (sorted_wrt (<) candidates \<longrightarrow>
               sorted_wrt (<) accepted
               \<and> (\<forall>k<length candidates.
                     candidates ! k \<in> set accepted \<longleftrightarrow>
                     ?us ! k < lambda_t (candidates ! k) / lambdaMax))"
    by blast
next
  assume "simulateHomogeneousPoisson dadd expDist lambdaMax T rng = None"
  then show "simulateNonHomogeneousPoisson dadd expDist U lambda_t lambdaMax T rng = None"
    by (simp add: simulateNonHomogeneousPoisson_def)
qed

lemma accepted_all:
  assumes "lambdaMax \<noteq> 0" and "\<forall>u\<in>set us. u < 1" and "length us = length cs"
  shows "accepted_candidates (\<lambda>t. lambdaMax) lambdaMax cs us = cs"
proof -
  have "filter (\<lambda>(t, u). u < lambdaMax / lambdaMax) (zip cs us) = zip cs us"
    using assms(1,2) by (auto simp: filter_id_conv dest: set_zip_rightD)
  then show ?thesis using assms(3) by (simp add: accepted_candidates_def)
qed

lemma draws_set: "\<forall>g. P (fst (d g)) \<Longrightarrow> \<forall>v\<in>set (draws d k g). P v"
  by (induction k arbitrary: g) auto


text \<open>
  C4. With the constant rate function \<open>lambda_t t = lambdaMax\<close> every candidate is
  accepted: \<open>simulateNonHomogeneousPoisson\<close> returns the very sequence that
  \<open>simulateHomogeneousPoisson\<close> with rate \<open>lambdaMax\<close> returns from the same engine state
  (and does not return where that does not).
\<close>

theorem constant_rate_thinning_is_homogeneous:
  assumes "0 < lambdaMax" and "unit_uniform U"
  shows "map_option fst
           (simulateNonHomogeneousPoisson dadd expDist U (\<lambda>t. lambdaMax) lambdaMax T rng)
         = map_option fst (simulateHomogeneousPoisson dadd expDist lambdaMax T rng)"
proof (cases "simulateHomogeneousPoisson dadd expDist lambdaMax T rng")
  case None
  then show ?thesis by (simp add: simulateNonHomogeneousPoisson_def)
next
  case (Some r)
  obtain cs g1 where r: "r = (cs, g1)" by (cases r)
  have "\<forall>g. fst (U g) < 1" using assms(2) by (simp add: unit_uniform_def)
  then have "\<forall>u\<in>set (draws U (length cs) g1). u < 1" by (rule draws_set)
  with assms(1) have "accepted_candidates (\<lambda>t. lambdaMax) lambdaMax cs (draws U (length cs) g1) = cs"
    by (intro accepted_all) (simp_all add: draws_length)
  with Some r show ?thesis
    by (simp add: simulateNonHomogeneousPoisson_def thinning_eq)
qed

lemma unit_uniform_tick_uniform: "unit_uniform tick_uniform"
  by (simp add: unit_uniform_def tick_uniform_def)

lemma tick_run: "simulateHomogeneousPoisson (+) tick_exp 1 4 (0::nat) = Some ([1, 3], 3)"
  by (simp add: simulateHomogeneousPoisson_def poisson_loop.simps tick_exp_def)

lemma tiny_run:
  "simulateHomogeneousPoisson absorbing_add tiny_gap_exp 1 4 (0::nat) = Some ([1, 1], 3)"
  by (simp add: simulateHomogeneousPoisson_def poisson_loop.simps tiny_gap_exp_def
      absorbing_add_def)

theorem thinning_witness:
  "simulateNonHomogeneousPoisson (+) tick_exp tick_uniform (\<lambda>t. 1 / 2) 1 4 (0::nat)
     = Some ([3], 5)
   \<and> subseq [3] [1, 3::real] \<and> sorted_wrt (\<le>) [3::real]"
proof -
  have "(0::real) < 1" and "(0::real) \<le> 4" by simp_all
  note t = thinning_keeps_draws_below_ratio[OF this exp_nonneg_tick_exp clock_monotone_plus,
      of "0::nat" tick_uniform "\<lambda>t. 1 / 2", THEN conjunct1, rule_format, OF tick_run]
  then obtain accepted where
    a: "simulateNonHomogeneousPoisson (+) tick_exp tick_uniform (\<lambda>t. 1 / 2) 1 4 (0::nat)
          = Some (accepted, advance tick_uniform (length [1, 3::real]) 3)"
       "subseq accepted [1, 3]" "sorted_wrt (\<le>) accepted"
    by (elim exE conjE) (rule that)
  have run: "simulateNonHomogeneousPoisson (+) tick_exp tick_uniform (\<lambda>t. 1 / 2) 1 4 (0::nat)
               = Some ([3], 5)"
    by (simp add: simulateNonHomogeneousPoisson_def tick_run tick_uniform_def)
  with a(1) have "accepted = [3]" by simp
  with a run show ?thesis by simp
qed

text \<open>
  C3 as stated fails: the output need not be strictly increasing. The candidate run that
  absorbs a gap returns the time \<open>1\<close> twice, both uniform variates are below the ratio
  \<open>1\<close>, and the thinning returns \<open>1\<close> twice.
\<close>

theorem thinning_keeps_a_repeated_time:
  "simulateNonHomogeneousPoisson absorbing_add tiny_gap_exp tick_uniform (\<lambda>t. 1) 1 4 (0::nat)
     = Some ([1, 1], 5)
   \<and> \<not> sorted_wrt (<) [1, 1::real]"
  by (simp add: simulateNonHomogeneousPoisson_def tiny_run tick_uniform_def)

theorem constant_rate_witness:
  "map_option fst (simulateNonHomogeneousPoisson (+) tick_exp tick_uniform (\<lambda>t. 1) 1 4 (0::nat))
     = Some [1, 3]"
proof -
  have "(0::real) < 1" by simp
  from constant_rate_thinning_is_homogeneous[OF this unit_uniform_tick_uniform,
      of "(+)" tick_exp 4 "0::nat"] tick_run
  show ?thesis by simp
qed


subsection \<open>Compound Poisson process\<close>

lemma running_sum_exact: "running_sum (+) xs = sum_list xs"
proof -
  have "foldl (+) a xs = a + sum_list xs" for a :: real
    by (induction xs arbitrary: a) (simp_all add: add.assoc)
  from this[of 0] show ?thesis by (simp add: running_sum_def)
qed

lemma compound_loop_eq:
  "compound_loop dadd jg ts v path g =
     (path @ map (\<lambda>k. (ts ! k, foldl dadd v (take (Suc k) (draws jg (length ts) g))))
               [0..<length ts],
      advance jg (length ts) g)"
proof (induction ts arbitrary: v path g)
  case Nil
  then show ?case by simp
next
  case (Cons t ts)
  obtain j g1 where d: "jg g = (j, g1)" by (cases "jg g")
  have "map (\<lambda>k. ((t # ts) ! k, foldl dadd v (take (Suc k) (j # draws jg (length ts) g1))))
          [0..<Suc (length ts)]
        = (t, dadd v j)
            # map (\<lambda>k. (ts ! k, foldl dadd (dadd v j) (take (Suc k) (draws jg (length ts) g1))))
                [0..<length ts]"
    by (simp add: upt_conv_Cons map_Suc_upt[symmetric] del: upt_Suc)
  with Cons.IH[of "dadd v j" _ g1] d show ?case
    by simp
qed

text \<open>
  C5, as the code has it. Where the arrival run returns, \<open>simulateCompoundPoisson\<close>
  returns a path as long as the arrival sequence, whose times are those arrival times
  (non-decreasing, none beyond \<open>T\<close>) and whose \<open>k\<close>-th value is the running sum of the
  first \<open>k + 1\<close> jumps, accumulated in arrival order (their sum, for exact addition:
  \<open>running_sum_exact\<close>); the jump generator is called once per arrival, so the engine ends
  advanced by as many jump draws as there are arrivals.
\<close>

theorem compound_path_running_sums:
  assumes "0 < lambda" and "0 \<le> T" and "exp_nonneg expDist" and "clock_monotone dadd"
  shows "(\<forall>arrivalTimes rng1.
            simulateHomogeneousPoisson dadd expDist lambda T rng = Some (arrivalTimes, rng1) \<longrightarrow>
            (\<exists>processPath.
               simulateCompoundPoisson dadd expDist lambda T rng jumpGenerator
                 = Some (processPath, advance jumpGenerator (length arrivalTimes) rng1)
               \<and> length processPath = length arrivalTimes
               \<and> map fst processPath = arrivalTimes
               \<and> sorted_wrt (\<le>) (map fst processPath)
               \<and> (\<forall>t\<in>set (map fst processPath). t \<le> T)
               \<and> (\<forall>k<length arrivalTimes.
                     snd (processPath ! k)
                       = running_sum dadd
                           (take (Suc k) (draws jumpGenerator (length arrivalTimes) rng1)))))
       \<and> (simulateHomogeneousPoisson dadd expDist lambda T rng = None \<longrightarrow>
            simulateCompoundPoisson dadd expDist lambda T rng jumpGenerator = None)"
proof (intro conjI allI impI)
  fix arrivalTimes rng1
  assume h: "simulateHomogeneousPoisson dadd expDist lambda T rng = Some (arrivalTimes, rng1)"
  let ?js = "draws jumpGenerator (length arrivalTimes) rng1"
  let ?path = "map (\<lambda>k. (arrivalTimes ! k, foldl dadd 0 (take (Suc k) ?js)))
                 [0..<length arrivalTimes]"
  have nonneg: "\<forall>g. 0 \<le> fst (expDist lambda g)"
    using assms(1,3) by (simp add: exp_nonneg_def)
  from h have "poisson_loop dadd (expDist lambda) T 0 [] rng = Some (arrivalTimes, rng1)"
    by (simp add: simulateHomogeneousPoisson_def)
  from poisson_loop_invariant[OF this nonneg assms(4)]
  have inc: "sorted_wrt (\<le>) arrivalTimes" and le: "\<forall>t\<in>set arrivalTimes. t \<le> T" by simp_all
  have run: "simulateCompoundPoisson dadd expDist lambda T rng jumpGenerator
               = Some (?path, advance jumpGenerator (length arrivalTimes) rng1)"
    using h by (simp add: simulateCompoundPoisson_def compound_loop_eq)
  have times: "map fst ?path = arrivalTimes"
    by (simp add: comp_def map_nth)
  have vals: "\<forall>k<length arrivalTimes.
                snd (?path ! k) = running_sum dadd (take (Suc k) ?js)"
    by (simp add: running_sum_def)
  from run times inc le vals
  show "\<exists>processPath.
          simulateCompoundPoisson dadd expDist lambda T rng jumpGenerator
            = Some (processPath, advance jumpGenerator (length arrivalTimes) rng1)
          \<and> length processPath = length arrivalTimes
          \<and> map fst processPath = arrivalTimes
          \<and> sorted_wrt (\<le>) (map fst processPath)
          \<and> (\<forall>t\<in>set (map fst processPath). t \<le> T)
          \<and> (\<forall>k<length arrivalTimes.
                snd (processPath ! k) = running_sum dadd (take (Suc k) ?js))"
    by (intro exI[of _ ?path]) (simp only: length_map length_upt, simp)
next
  assume "simulateHomogeneousPoisson dadd expDist lambda T rng = None"
  then show "simulateCompoundPoisson dadd expDist lambda T rng jumpGenerator = None"
    by (simp add: simulateCompoundPoisson_def)
qed

theorem compound_path_witness:
  "simulateCompoundPoisson (+) tick_exp 1 4 (0::nat) tick_jump = Some ([(1, 3), (3, 7)], 5)
   \<and> map fst [(1::real, 3::real), (3, 7)] = [1, 3]"
proof -
  have "(0::real) < 1" and "(0::real) \<le> 4" by simp_all
  note t = compound_path_running_sums[OF this exp_nonneg_tick_exp clock_monotone_plus,
      of "0::nat" tick_jump, THEN conjunct1, rule_format, OF tick_run]
  then obtain processPath where
    p: "simulateCompoundPoisson (+) tick_exp 1 4 (0::nat) tick_jump
          = Some (processPath, advance tick_jump (length [1, 3::real]) 3)"
       "map fst processPath = [1, 3]"
    by (elim exE conjE) (rule that)
  have run: "simulateCompoundPoisson (+) tick_exp 1 4 (0::nat) tick_jump
               = Some ([(1, 3), (3, 7)], 5)"
    by (simp add: simulateCompoundPoisson_def tick_run tick_jump_def)
  with p(1) have "processPath = [(1, 3), (3, 7)]" by simp
  with p run show ?thesis by simp
qed

text \<open>
  C5 as stated fails: the times of the path need not be strictly increasing. The arrival
  run that absorbs a gap returns the time \<open>1\<close> twice, and the path carries both.
\<close>

theorem compound_path_repeats_a_time:
  "simulateCompoundPoisson absorbing_add tiny_gap_exp 1 4 (0::nat) tick_jump
     = Some ([(1, 3), (1, 7)], 5)
   \<and> \<not> sorted_wrt (<) (map fst [(1::real, 3::real), (1, 7)])"
  by (simp add: simulateCompoundPoisson_def tiny_run tick_jump_def absorbing_add_def)

subsection \<open>Random walk\<close>

lemma walk_from_length: "length (walk_from d k prev g) = k"
  by (induction k arbitrary: prev g) simp_all

lemma rw_loop_eq:
  assumes "1 \<le> i" and "i \<le> n + 1" and "n < INT_MAX" and "length ps = nat (n + 1)"
      and "\<bar>ps ! nat (i - 1)\<bar> \<le> i - 1"
  shows "rw_loop d n i ps g =
           Inr (take (nat i) ps @ walk_from d (nat (n + 1 - i)) (ps ! nat (i - 1)) g,
                advance d (nat (n + 1 - i)) g)"
  using assms
proof (induction d n i ps g rule: rw_loop.induct)
  case (1 d n i ps g)
  show ?case
  proof (cases "i \<le> n")
    case False
    with "1.prems" have "i = n + 1" by simp
    with "1.prems" False show ?thesis
      by (subst rw_loop.simps) simp
  next
    case True
    obtain b g1 where dg: "d g = (b, g1)" by (cases "d g")
    define step :: int where "step = (if b then 1 else - 1)"
    define prev where "prev = ps ! nat (i - 1)"
    define v where "v = prev + step"
    have get: "vec_get ps (i - 1) = Inr prev"
      using "1.prems" True by (simp add: vec_get_def prev_def)
    have "\<bar>v\<bar> \<le> i" using "1.prems"(5) by (auto simp: v_def prev_def step_def)
    with True "1.prems"(3) have "INT_MIN \<le> v \<and> v \<le> INT_MAX"
      unfolding INT_MAX_def INT_MIN_def by linarith
    then have add: "int_add prev step = Inr v"
      by (simp add: int_add_def v_def)
    have set: "vec_set ps i v = Inr (ps[nat i := v])"
      using "1.prems" True by (simp add: vec_set_def)
    have m: "nat (n + 1 - i) = Suc (nat (n + 1 - (i + 1)))"
      using True by simp
    have idx: "nat (i + 1 - 1) = nat i" by simp
    have IH: "rw_loop d n (i + 1) (ps[nat i := v]) g1 =
               Inr (take (nat (i + 1)) (ps[nat i := v])
                      @ walk_from d (nat (n + 1 - (i + 1))) (ps[nat i := v] ! nat (i + 1 - 1)) g1,
                    advance d (nat (n + 1 - (i + 1))) g1)"
    proof (rule "1.IH"[OF True _ _ get add set])
      show "(b, g1) = d g" by (simp add: dg)
      show "step = (if b then 1 else - 1)" by (simp add: step_def)
      show "1 \<le> i + 1" using "1.prems" by simp
      show "i + 1 \<le> n + 1" using True by simp
      show "n < INT_MAX" by fact
      show "length (ps[nat i := v]) = nat (n + 1)" using "1.prems" by simp
      show "\<bar>ps[nat i := v] ! nat (i + 1 - 1)\<bar> \<le> i + 1 - 1"
        using "1.prems" True \<open>\<bar>v\<bar> \<le> i\<close> by simp
    qed
    have upd: "ps[nat i := v] ! nat i = v"
      using "1.prems" True by simp
    have tk: "take (nat (i + 1)) (ps[nat i := v]) = take (nat i) ps @ [v]"
    proof -
      have "nat (i + 1) = Suc (nat i)" using "1.prems" by simp
      moreover have "nat i < length (ps[nat i := v])" using "1.prems" True by simp
      ultimately show ?thesis using upd by (simp add: take_Suc_conv_app_nth)
    qed
    have unroll: "rw_loop d n i ps g = rw_loop d n (i + 1) (ps[nat i := v]) g1"
      using True dg get add set by (subst rw_loop.simps) (simp add: step_def Let_def)
    have res: "rw_loop d n i ps g =
                 Inr ((take (nat i) ps @ [v]) @ walk_from d (nat (n + 1 - (i + 1))) v g1,
                      advance d (nat (n + 1 - (i + 1))) g1)"
      using IH unfolding unroll idx upd tk .
    have wf: "walk_from d (nat (n + 1 - i)) prev g = v # walk_from d (nat (n + 1 - (i + 1))) v g1"
      unfolding m by (simp add: dg v_def step_def)
    have adv: "advance d (nat (n + 1 - i)) g = advance d (nat (n + 1 - (i + 1))) g1"
      unfolding m by (simp add: dg)
    show ?thesis
      unfolding res prev_def[symmetric] wf adv by simp
  qed
qed

lemma simRandomWalk_eq:
  assumes "0 \<le> n" and "n < INT_MAX"
  shows "simRandomWalk bernoulli p n gen =
           Inr (0 # walk_from (bernoulli p) (nat n) 0 gen, advance (bernoulli p) (nat n) gen)"
proof -
  have "rw_loop (bernoulli p) n 1 (replicate (nat (n + 1)) 0) gen =
          Inr (take (nat 1) (replicate (nat (n + 1)) 0)
                 @ walk_from (bernoulli p) (nat (n + 1 - 1)) (replicate (nat (n + 1)) 0 ! nat (1 - 1)) gen,
               advance (bernoulli p) (nat (n + 1 - 1)) gen)"
    using assms by (intro rw_loop_eq) simp_all
  moreover have "take (nat 1) (replicate (nat (n + 1)) (0::int)) = [0]"
    using assms(1) by (simp add: nat_add_distrib)
  ultimately show ?thesis
    using assms by (simp add: simRandomWalk_def vec_new_def del: rw_loop.simps)
qed

lemma simRandomWalk_overflow:
  "INT_MAX \<le> n \<Longrightarrow> simRandomWalk bernoulli p n gen = Inl SignedOverflow"
  by (simp add: simRandomWalk_def)

lemma simRandomWalk_negative:
  "n < - 1 \<Longrightarrow> simRandomWalk bernoulli p n gen = Inl LengthError"
  by (simp add: simRandomWalk_def vec_new_def INT_MAX_def)

lemma simRandomWalk_minus_one:
  "simRandomWalk bernoulli p (- 1) gen = Inr ([], gen)"
  by (simp add: simRandomWalk_def vec_new_def INT_MAX_def)

lemma walk_from_nth:
  "j < k \<Longrightarrow> (prev # walk_from d k prev g) ! Suc j =
      (prev # walk_from d k prev g) ! j + (if draws d k g ! j then 1 else - 1)"
proof (induction k arbitrary: prev g j)
  case 0
  then show ?case by simp
next
  case (Suc k)
  show ?case
  proof (cases j)
    case 0
    then show ?thesis by simp
  next
    case (Suc j')
    with Suc.prems have "j' < k" by simp
    from Suc.IH[OF this, of "prev + (if fst (d g) then 1 else - 1)" "snd (d g)"] Suc
    show ?thesis by simp
  qed
qed

lemma walk_from_bound_parity:
  "j < k \<Longrightarrow> \<bar>walk_from d k prev g ! j - prev\<bar> \<le> int j + 1
            \<and> even (walk_from d k prev g ! j - prev + int j + 1)"
proof (induction k arbitrary: prev g j)
  case 0
  then show ?case by simp
next
  case (Suc k)
  show ?case
  proof (cases j)
    case 0
    then show ?thesis by simp
  next
    case (Suc j')
    with Suc.prems have "j' < k" by simp
    from Suc.IH[OF this, of "prev + (if fst (d g) then 1 else - 1)" "snd (d g)"] Suc
    show ?thesis by (auto split: if_splits)
  qed
qed

lemma simRandomWalk_Inr:
  assumes "0 \<le> n" and "simRandomWalk bernoulli p n gen = Inr (positions, gen')"
  shows "n < INT_MAX \<and> positions = 0 # walk_from (bernoulli p) (nat n) 0 gen
         \<and> gen' = advance (bernoulli p) (nat n) gen"
proof -
  have lt: "n < INT_MAX"
  proof (rule ccontr)
    assume "\<not> n < INT_MAX"
    then have "simRandomWalk bernoulli p n gen = Inl SignedOverflow"
      by (simp add: simRandomWalk_overflow)
    with assms(2) show False by simp
  qed
  from simRandomWalk_eq[OF assms(1) lt, of bernoulli p gen] assms(2) lt
  show ?thesis by simp
qed

text \<open>
  C7. For \<open>p\<close> in \<open>[0, 1]\<close> and \<open>n \<ge> 0\<close> steps, the path \<open>simRandomWalk\<close> returns has
  length \<open>n + 1\<close> and starts at \<open>0\<close>, and every position is the one before it plus one
  where the Bernoulli draw of that step succeeded and minus one where it failed, so
  consecutive positions differ by exactly one in absolute value. The call returns a path
  for every \<open>n\<close> below \<^verbatim>\<open>INT_MAX\<close> (at \<^verbatim>\<open>INT_MAX\<close> the source's \<^verbatim>\<open>n+1\<close> overflows).
\<close>

theorem random_walk_unit_steps:
  assumes "0 \<le> p" and "p \<le> 1" and "0 \<le> n" and "n \<le> INT_MAX"
  shows "(n < INT_MAX \<longrightarrow>
            (\<exists>positions gen'. simRandomWalk bernoulli p n gen = Inr (positions, gen')))
       \<and> (\<forall>positions gen'.
            simRandomWalk bernoulli p n gen = Inr (positions, gen') \<longrightarrow>
            length positions = nat n + 1 \<and> positions ! 0 = 0 \<and>
            (\<forall>i<nat n.
               positions ! Suc i
                 = positions ! i + (if draws (bernoulli p) (nat n) gen ! i then 1 else - 1)
               \<and> \<bar>positions ! Suc i - positions ! i\<bar> = 1))"
proof (intro conjI allI impI)
  assume "n < INT_MAX"
  with assms(3) show "\<exists>positions gen'. simRandomWalk bernoulli p n gen = Inr (positions, gen')"
    by (simp add: simRandomWalk_eq)
next
  fix positions gen'
  assume r: "simRandomWalk bernoulli p n gen = Inr (positions, gen')"
  from simRandomWalk_Inr[OF assms(3) r]
  have ps: "positions = 0 # walk_from (bernoulli p) (nat n) 0 gen" by simp
  show "length positions = nat n + 1" by (simp add: ps walk_from_length)
  show "positions ! 0 = 0" by (simp add: ps)
  fix i assume i: "i < nat n"
  from walk_from_nth[OF i, of 0 "bernoulli p" gen]
  have st: "positions ! Suc i
           = positions ! i + (if draws (bernoulli p) (nat n) gen ! i then 1 else - 1)"
    unfolding ps .
  from st show "positions ! Suc i
           = positions ! i + (if draws (bernoulli p) (nat n) gen ! i then 1 else - 1)" .
  from st show "\<bar>positions ! Suc i - positions ! i\<bar> = 1" by simp
qed

lemma tick_walk:
  "simRandomWalk tick_bernoulli (1 / 2) 3 (0::nat) = Inr ([0, 1, 0, 1], 3)"
proof -
  have "(0::int) \<le> 3" and "(3::int) < INT_MAX" by (simp_all add: INT_MAX_def)
  then show ?thesis
    by (simp add: simRandomWalk_eq tick_bernoulli_def eval_nat_numeral)
qed

theorem random_walk_unit_steps_witness:
  "simRandomWalk tick_bernoulli (1 / 2) 3 (0::nat) = Inr ([0, 1, 0, 1], 3)
   \<and> length [0, 1, 0, 1::int] = nat 3 + 1 \<and> [0, 1, 0, 1::int] ! 0 = 0"
proof -
  have "(0::real) \<le> 1 / 2" and "(1::real) / 2 \<le> 1" and "(0::int) \<le> 3" and "(3::int) \<le> INT_MAX"
    by (simp_all add: INT_MAX_def)
  from random_walk_unit_steps[OF this, of tick_bernoulli "0::nat", THEN conjunct2, rule_format,
      OF tick_walk] tick_walk
  show ?thesis by simp
qed

text \<open>
  C10. In every path that \<open>simRandomWalk\<close> returns for \<open>n \<ge> 0\<close>, position \<open>i\<close> is at
  most \<open>i\<close> in absolute value and has the parity of \<open>i\<close>, for every index \<open>i\<close> from
  \<open>0\<close> to \<open>n\<close>.
\<close>

theorem random_walk_bound_parity:
  assumes "0 \<le> n"
  shows "(n < INT_MAX \<longrightarrow>
            (\<exists>positions gen'. simRandomWalk bernoulli p n gen = Inr (positions, gen')))
       \<and> (\<forall>positions gen'.
            simRandomWalk bernoulli p n gen = Inr (positions, gen') \<longrightarrow>
            (\<forall>i\<le>nat n. \<bar>positions ! i\<bar> \<le> int i \<and> even (positions ! i + int i)))"
proof (intro conjI allI impI)
  assume "n < INT_MAX"
  with assms show "\<exists>positions gen'. simRandomWalk bernoulli p n gen = Inr (positions, gen')"
    by (simp add: simRandomWalk_eq)
next
  fix positions gen' i
  assume r: "simRandomWalk bernoulli p n gen = Inr (positions, gen')" and i: "i \<le> nat n"
  from simRandomWalk_Inr[OF assms r]
  have ps: "positions = 0 # walk_from (bernoulli p) (nat n) 0 gen" by simp
  show "\<bar>positions ! i\<bar> \<le> int i" and "even (positions ! i + int i)"
  proof -
    have "\<bar>positions ! i\<bar> \<le> int i \<and> even (positions ! i + int i)"
    proof (cases i)
      case 0
      then show ?thesis by (simp add: ps)
    next
      case (Suc j)
      with i have "j < nat n" by simp
      from walk_from_bound_parity[OF this, of "bernoulli p" 0 gen] Suc
      show ?thesis by (simp add: ps add.commute)
    qed
    then show "\<bar>positions ! i\<bar> \<le> int i" and "even (positions ! i + int i)" by simp_all
  qed
qed

theorem random_walk_bound_parity_witness:
  "simRandomWalk tick_bernoulli (1 / 2) 3 (0::nat) = Inr ([0, 1, 0, 1], 3)
   \<and> \<bar>[0, 1, 0, 1::int] ! 3\<bar> \<le> int 3 \<and> even ([0, 1, 0, 1::int] ! 3 + int 3)"
proof -
  have "(0::int) \<le> 3" by simp
  from random_walk_bound_parity[OF this, of tick_bernoulli "1 / 2" "0::nat", THEN conjunct2,
      rule_format, OF tick_walk, of 3] tick_walk
  show ?thesis by simp
qed

subsection \<open>Markov chain\<close>

lemma chain_from_length: "length (chain_from discrete p k s g) = k"
  by (induction k arbitrary: s g) simp_all

lemma discrete_square_range:
  assumes "discrete_in_range discrete" and "square p" and "0 \<le> s" and "s < int (length p)"
  shows "0 \<le> fst (discrete (p ! nat s) g) \<and> fst (discrete (p ! nat s) g) < int (length p)"
proof -
  from assms(3,4) have "p ! nat s \<in> set p" by simp
  with assms(2) have len: "length (p ! nat s) = length p" by (simp add: square_def)
  from assms(1) have "0 \<le> fst (discrete (p ! nat s) g)
      \<and> fst (discrete (p ! nat s) g) < max 1 (int (length (p ! nat s)))"
    by (simp add: discrete_in_range_def)
  with len assms(3,4) show ?thesis by simp
qed

lemma mc_loop_eq:
  assumes "1 \<le> i" and "i \<le> n + 1" and "length x = nat (n + 1)"
      and "discrete_in_range discrete" and "square p"
      and "0 \<le> x ! nat (i - 1)" and "x ! nat (i - 1) < int (length p)"
  shows "mc_loop discrete p n i x gen =
           Inr (take (nat i) x @ chain_from discrete p (nat (n + 1 - i)) (x ! nat (i - 1)) gen,
                chain_end discrete p (nat (n + 1 - i)) (x ! nat (i - 1)) gen)"
  using assms
proof (induction discrete p n i x gen rule: mc_loop.induct)
  case (1 discrete p n i x gen)
  show ?case
  proof (cases "i \<le> n")
    case False
    with "1.prems" have "i = n + 1" by simp
    with "1.prems" False show ?thesis
      by (subst mc_loop.simps) simp
  next
    case True
    define s where "s = x ! nat (i - 1)"
    define row where "row = p ! nat s"
    obtain j g1 where dg: "discrete row gen = (j, g1)" by (cases "discrete row gen")
    have get: "vec_get x (i - 1) = Inr s"
      using "1.prems" True by (simp add: vec_get_def s_def)
    have getp: "vec_get p s = Inr row"
      using "1.prems"(6,7) by (simp add: vec_get_def s_def row_def)
    have set: "vec_set x i j = Inr (x[nat i := j])"
      using "1.prems" True by (simp add: vec_set_def)
    from discrete_square_range[OF "1.prems"(4,5,6,7), of gen] dg
    have jr: "0 \<le> j" "j < int (length p)" by (simp_all add: s_def row_def)
    have m: "nat (n + 1 - i) = Suc (nat (n + 1 - (i + 1)))"
      using True by simp
    have idx: "nat (i + 1 - 1) = nat i" by simp
    have upd: "x[nat i := j] ! nat i = j"
      using "1.prems" True by simp
    have IH: "mc_loop discrete p n (i + 1) (x[nat i := j]) g1 =
               Inr (take (nat (i + 1)) (x[nat i := j])
                      @ chain_from discrete p (nat (n + 1 - (i + 1))) (x[nat i := j] ! nat (i + 1 - 1)) g1,
                    chain_end discrete p (nat (n + 1 - (i + 1))) (x[nat i := j] ! nat (i + 1 - 1)) g1)"
    proof (rule "1.IH"[OF True get getp _ set])
      show "(j, g1) = discrete row gen" by (simp add: dg)
      show "1 \<le> i + 1" using "1.prems" by simp
      show "i + 1 \<le> n + 1" using True by simp
      show "length (x[nat i := j]) = nat (n + 1)" using "1.prems" by simp
      show "discrete_in_range discrete" by fact
      show "square p" by fact
      show "0 \<le> x[nat i := j] ! nat (i + 1 - 1)" unfolding idx upd by fact
      show "x[nat i := j] ! nat (i + 1 - 1) < int (length p)" unfolding idx upd by fact
    qed
    have tk: "take (nat (i + 1)) (x[nat i := j]) = take (nat i) x @ [j]"
    proof -
      have "nat (i + 1) = Suc (nat i)" using "1.prems" by simp
      moreover have "nat i < length (x[nat i := j])" using "1.prems" True by simp
      ultimately show ?thesis using upd by (simp add: take_Suc_conv_app_nth)
    qed
    have unroll: "mc_loop discrete p n i x gen = mc_loop discrete p n (i + 1) (x[nat i := j]) g1"
      using True dg get getp set by (subst mc_loop.simps) simp
    have res: "mc_loop discrete p n i x gen =
                 Inr ((take (nat i) x @ [j]) @ chain_from discrete p (nat (n + 1 - (i + 1))) j g1,
                      chain_end discrete p (nat (n + 1 - (i + 1))) j g1)"
      using IH unfolding unroll idx upd tk .
    have cf: "chain_from discrete p (nat (n + 1 - i)) s gen
                = j # chain_from discrete p (nat (n + 1 - (i + 1))) j g1"
      unfolding m using dg by (simp add: row_def)
    have ce: "chain_end discrete p (nat (n + 1 - i)) s gen
                = chain_end discrete p (nat (n + 1 - (i + 1))) j g1"
      unfolding m using dg by (simp add: row_def)
    show ?thesis
      unfolding res s_def[symmetric] cf ce by simp
  qed
qed

lemma simMarkovChain_eq:
  assumes "0 \<le> n" and "n < INT_MAX" and "0 \<le> x0" and "x0 < int (length p)"
      and "discrete_in_range discrete" and "square p"
  shows "simMarkovChain discrete p x0 n gen =
           Inr (x0 # chain_from discrete p (nat n) x0 gen, chain_end discrete p (nat n) x0 gen)"
proof -
  let ?x = "(replicate (nat (n + 1)) (0::int))[0 := x0]"
  have n1: "nat (n + 1) = Suc (nat n)" using assms(1) by simp
  have x0: "?x ! nat (1 - 1) = x0" by (simp add: n1)
  have "mc_loop discrete p n 1 ?x gen =
          Inr (take (nat 1) ?x @ chain_from discrete p (nat (n + 1 - 1)) (?x ! nat (1 - 1)) gen,
               chain_end discrete p (nat (n + 1 - 1)) (?x ! nat (1 - 1)) gen)"
  proof (rule mc_loop_eq)
    show "(1::int) \<le> 1" by simp
    show "1 \<le> n + 1" using assms(1) by simp
    show "length ?x = nat (n + 1)" by simp
    show "discrete_in_range discrete" and "square p" by fact+
    show "0 \<le> ?x ! nat (1 - 1)" and "?x ! nat (1 - 1) < int (length p)"
      unfolding x0 by fact+
  qed
  moreover have "take (nat 1) ?x = [x0]" by (simp add: n1)
  ultimately have "mc_loop discrete p n 1 ?x gen =
      Inr (x0 # chain_from discrete p (nat n) x0 gen, chain_end discrete p (nat n) x0 gen)"
    unfolding x0 by simp
  moreover have "vec_set (replicate (nat (n + 1)) (0::int)) 0 x0 = Inr ?x"
    by (simp add: vec_set_def n1)
  ultimately show ?thesis
    using assms(1,2) by (simp add: simMarkovChain_def vec_new_def del: mc_loop.simps)
qed

lemma simMarkovChain_overflow:
  "INT_MAX \<le> n \<Longrightarrow> simMarkovChain discrete p x0 n gen = Inl SignedOverflow"
  by (simp add: simMarkovChain_def)

lemma chain_from_range:
  assumes "discrete_in_range discrete" and "square p" and "0 \<le> s" and "s < int (length p)"
  shows "\<forall>t\<in>set (chain_from discrete p k s g). 0 \<le> t \<and> t < int (length p)"
  using assms(3,4)
proof (induction k arbitrary: s g)
  case 0
  then show ?case by simp
next
  case (Suc k)
  from discrete_square_range[OF assms(1,2) Suc.prems, of g]
  have r: "0 \<le> fst (discrete (p ! nat s) g)" "fst (discrete (p ! nat s) g) < int (length p)"
    by simp_all
  from Suc.IH[OF r] r show ?case by simp
qed

lemma chain_engine_shift:
  "chain_engine discrete p (s # xs) (Suc k) g
     = chain_engine discrete p xs k (snd (discrete (p ! nat s) g))"
  by (induction k) simp_all

lemma chain_from_step:
  "i < k \<Longrightarrow>
   discrete (p ! nat ((s # chain_from discrete p k s g) ! i))
            (chain_engine discrete p (s # chain_from discrete p k s g) i g)
     = ((s # chain_from discrete p k s g) ! Suc i,
        chain_engine discrete p (s # chain_from discrete p k s g) (Suc i) g)"
proof (induction k arbitrary: s g i)
  case 0
  then show ?case by simp
next
  case (Suc k)
  let ?s' = "fst (discrete (p ! nat s) g)" and ?g' = "snd (discrete (p ! nat s) g)"
  let ?xs = "?s' # chain_from discrete p k ?s' ?g'"
  have cf: "chain_from discrete p (Suc k) s g = ?xs" by simp
  show ?case
  proof (cases i)
    case 0
    then show ?thesis by simp
  next
    case i: (Suc i')
    with Suc.prems have "i' < k" by simp
    note IH = Suc.IH[OF this, of ?s' ?g']
    have e1: "chain_engine discrete p (s # ?xs) (Suc i') g = chain_engine discrete p ?xs i' ?g'"
      by (rule chain_engine_shift)
    have e2: "chain_engine discrete p (s # ?xs) (Suc (Suc i')) g
                = chain_engine discrete p ?xs (Suc i') ?g'"
      by (rule chain_engine_shift)
    show ?thesis
      unfolding i cf e1 e2 using IH by (simp del: chain_engine.simps)
  qed
qed

lemma chain_end_engine:
  "chain_end discrete p k s g = chain_engine discrete p (s # chain_from discrete p k s g) k g"
proof (induction k arbitrary: s g)
  case 0
  then show ?case by simp
next
  case (Suc k)
  show ?case
    unfolding chain_engine_shift chain_from.simps chain_end.simps Suc.IH ..
qed

lemma simMarkovChain_Inr:
  assumes "0 \<le> n" and "0 \<le> x0" and "x0 < int (length p)"
      and "discrete_in_range discrete" and "square p"
      and "simMarkovChain discrete p x0 n gen = Inr (x, gen')"
  shows "n < INT_MAX \<and> x = x0 # chain_from discrete p (nat n) x0 gen
         \<and> gen' = chain_end discrete p (nat n) x0 gen"
proof -
  have lt: "n < INT_MAX"
  proof (rule ccontr)
    assume "\<not> n < INT_MAX"
    then have "simMarkovChain discrete p x0 n gen = Inl SignedOverflow"
      by (simp add: simMarkovChain_overflow)
    with assms(6) show False by simp
  qed
  from simMarkovChain_eq[OF assms(1) lt assms(2-5), of gen] assms(6) lt
  show ?thesis by simp
qed

lemma discrete_in_range_tick: "discrete_in_range tick_discrete"
  by (auto simp: discrete_in_range_def tick_discrete_def Let_def)

lemma square_example: "square example_matrix"
  by (simp add: square_def example_matrix_def)

lemma valid_example: "valid_matrix 0 example_matrix"
  by (simp add: valid_matrix_def square_def example_matrix_def)

lemma tick_discrete_0: "tick_discrete (example_matrix ! nat 0) 0 = (0, 1)"
  by (simp add: tick_discrete_def example_matrix_def Let_def)

lemma tick_discrete_1: "tick_discrete (example_matrix ! nat 0) 1 = (1, 2)"
  by (simp add: tick_discrete_def example_matrix_def Let_def)

lemma tick_discrete_2: "tick_discrete (example_matrix ! nat 1) 2 = (2, 3)"
  by (simp add: tick_discrete_def example_matrix_def Let_def)

lemma tick_chain:
  "simMarkovChain tick_discrete example_matrix 0 3 (0::nat) = Inr ([0, 0, 1, 2], 3)"
proof -
  have n3: "nat 3 = Suc (Suc (Suc 0))" by simp
  have cf: "chain_from tick_discrete example_matrix (nat 3) 0 (0::nat) = [0, 1, 2]"
    unfolding n3 chain_from.simps tick_discrete_0 fst_conv snd_conv tick_discrete_1
      tick_discrete_2 ..
  have ce: "chain_end tick_discrete example_matrix (nat 3) 0 (0::nat) = 3"
    unfolding n3 chain_end.simps tick_discrete_0 fst_conv snd_conv tick_discrete_1
      tick_discrete_2 ..
  have "(0::int) \<le> 3" and "(3::int) < INT_MAX" and "(0::int) \<le> 0"
    and "0 < int (length example_matrix)"
    by (simp_all add: INT_MAX_def example_matrix_def)
  from simMarkovChain_eq[OF this discrete_in_range_tick square_example, of 0]
  show ?thesis unfolding cf ce .
qed

text \<open>
  C6, as the code has it. For a valid transition matrix (rows summing to \<open>1\<close> within any
  tolerance), a valid initial state and \<open>n \<ge> 0\<close> steps, the path \<open>simMarkovChain\<close>
  returns has length \<open>n + 1\<close> and starts at \<open>x0\<close>; state \<open>i + 1\<close> is the variate of one
  draw from the distribution built from the row of state \<open>i\<close>, on the engine as the steps
  before left it, and is a row index. The call returns a path for every \<open>n\<close> below
  \<^verbatim>\<open>INT_MAX\<close>.
\<close>

theorem markov_chain_steps_by_row_draws:
  assumes "valid_matrix eps p" and "0 \<le> x0" and "x0 < int (length p)" and "0 \<le> n"
      and "discrete_in_range discrete"
  shows "(n < INT_MAX \<longrightarrow> (\<exists>x gen'. simMarkovChain discrete p x0 n gen = Inr (x, gen')))
       \<and> (\<forall>x gen'.
            simMarkovChain discrete p x0 n gen = Inr (x, gen') \<longrightarrow>
            length x = nat n + 1 \<and> x ! 0 = x0
            \<and> gen' = chain_engine discrete p x (nat n) gen
            \<and> (\<forall>i<nat n.
                  discrete (p ! nat (x ! i)) (chain_engine discrete p x i gen)
                    = (x ! Suc i, chain_engine discrete p x (Suc i) gen)
                  \<and> 0 \<le> x ! Suc i \<and> x ! Suc i < int (length p)))"
proof (intro conjI allI impI)
  have sq: "square p" using assms(1) by (simp add: valid_matrix_def)
  {
    assume "n < INT_MAX"
    with assms sq show "\<exists>x gen'. simMarkovChain discrete p x0 n gen = Inr (x, gen')"
      by (simp add: simMarkovChain_eq)
  }
  fix x gen'
  assume r: "simMarkovChain discrete p x0 n gen = Inr (x, gen')"
  from simMarkovChain_Inr[OF assms(4,2,3,5) sq r]
  have x: "x = x0 # chain_from discrete p (nat n) x0 gen"
    and g: "gen' = chain_end discrete p (nat n) x0 gen" by simp_all
  show "length x = nat n + 1" by (simp add: x chain_from_length)
  show "x ! 0 = x0" by (simp add: x)
  show "gen' = chain_engine discrete p x (nat n) gen"
    unfolding g x by (rule chain_end_engine)
  fix i assume i: "i < nat n"
  show "discrete (p ! nat (x ! i)) (chain_engine discrete p x i gen)
          = (x ! Suc i, chain_engine discrete p x (Suc i) gen)"
    unfolding x by (rule chain_from_step[OF i])
  have "Suc i < length x" using i by (simp add: x chain_from_length)
  then have "x ! Suc i \<in> set x" by (rule nth_mem)
  moreover have "\<forall>t\<in>set x. 0 \<le> t \<and> t < int (length p)"
    unfolding x using chain_from_range[OF assms(5) sq assms(2,3), of "nat n" gen] assms(2,3)
    by simp
  ultimately show "0 \<le> x ! Suc i" and "x ! Suc i < int (length p)" by simp_all
qed

theorem markov_chain_steps_witness:
  "simMarkovChain tick_discrete example_matrix 0 3 (0::nat) = Inr ([0, 0, 1, 2], 3)
   \<and> length [0, 0, 1, 2::int] = nat 3 + 1 \<and> [0, 0, 1, 2::int] ! 0 = 0"
proof -
  have "(0::int) \<le> 0" and "0 < int (length example_matrix)" and "(0::int) \<le> 3"
    by (simp_all add: example_matrix_def)
  from markov_chain_steps_by_row_draws[OF valid_example this discrete_in_range_tick,
      of "0::nat", THEN conjunct2, rule_format, OF tick_chain] tick_chain
  show ?thesis by simp
qed

lemma discrete_in_range_first_index: "discrete_in_range first_index"
  by (auto simp: discrete_in_range_def first_index_def)

text \<open>
  C6 as stated fails: a realised transition can have matrix entry \<open>0\<close>. From state
  \<open>1\<close> of the scenario's matrix, whose row is \<open>[0, 0.3, 0.7]\<close>, the index \<open>0\<close> that
  libstdc++ returns at canonical variate \<open>0\<close> makes the step from \<open>1\<close> to \<open>0\<close>.
\<close>

theorem zero_weight_transition_realised:
  "simMarkovChain first_index example_matrix 1 1 (0::nat) = Inr ([1, 0], 1)
   \<and> example_matrix ! nat 1 ! nat 0 = 0
   \<and> valid_matrix 0 example_matrix"
proof -
  have "(0::int) \<le> 1" and "(1::int) < INT_MAX" and "(0::int) \<le> 1"
    and "1 < int (length example_matrix)"
    by (simp_all add: INT_MAX_def example_matrix_def)
  from simMarkovChain_eq[OF this discrete_in_range_first_index square_example, of 0]
  have "simMarkovChain first_index example_matrix 1 1 (0::nat) = Inr ([1, 0], 1)"
    by (simp add: first_index_def)
  moreover have "example_matrix ! nat 1 ! nat 0 = 0"
    by (simp add: example_matrix_def)
  ultimately show ?thesis using valid_example by simp
qed


text \<open>
  C9. For \<open>n \<ge> 0\<close>, an initial state that is a row index and a square matrix without
  empty rows, no vector access of \<open>simMarkovChain\<close> is out of bounds: the call does not
  end in \<open>OutOfBounds\<close>, it returns a path of length \<open>n + 1\<close> (for \<open>n\<close> below
  \<^verbatim>\<open>INT_MAX\<close>), and every state of the path is a row index.
\<close>

theorem markov_chain_in_bounds:
  assumes "0 \<le> n" and "0 \<le> x0" and "x0 < int (length p)"
      and "square p" and "\<forall>row\<in>set p. row \<noteq> []" and "discrete_in_range discrete"
  shows "simMarkovChain discrete p x0 n gen \<noteq> Inl OutOfBounds
       \<and> (n < INT_MAX \<longrightarrow> (\<exists>x gen'. simMarkovChain discrete p x0 n gen = Inr (x, gen')))
       \<and> (\<forall>x gen'.
            simMarkovChain discrete p x0 n gen = Inr (x, gen') \<longrightarrow>
            length x = nat n + 1 \<and> (\<forall>s\<in>set x. 0 \<le> s \<and> s < int (length p)))"
proof (intro conjI allI impI)
  show "simMarkovChain discrete p x0 n gen \<noteq> Inl OutOfBounds"
  proof (cases "n < INT_MAX")
    case True
    with assms show ?thesis by (simp add: simMarkovChain_eq)
  next
    case False
    then show ?thesis by (simp add: simMarkovChain_overflow)
  qed
next
  assume "n < INT_MAX"
  with assms show "\<exists>x gen'. simMarkovChain discrete p x0 n gen = Inr (x, gen')"
    by (simp add: simMarkovChain_eq)
next
  fix x gen'
  assume r: "simMarkovChain discrete p x0 n gen = Inr (x, gen')"
  from simMarkovChain_Inr[OF assms(1,2,3,6,4) r]
  have x: "x = x0 # chain_from discrete p (nat n) x0 gen" by simp
  show "length x = nat n + 1" by (simp add: x chain_from_length)
  show "\<forall>s\<in>set x. 0 \<le> s \<and> s < int (length p)"
    unfolding x using chain_from_range[OF assms(6,4,2,3), of "nat n" gen] assms(2,3)
    by simp
qed

theorem markov_chain_in_bounds_witness:
  "simMarkovChain tick_discrete example_matrix 0 3 (0::nat) = Inr ([0, 0, 1, 2], 3)
   \<and> simMarkovChain tick_discrete example_matrix 0 3 (0::nat) \<noteq> Inl OutOfBounds
   \<and> list_all (\<lambda>s. 0 \<le> s \<and> s < int (length example_matrix)) [0, 0, 1, 2]"
proof -
  have "(0::int) \<le> 3" and "(0::int) \<le> 0" and "0 < int (length example_matrix)"
    and "\<forall>row\<in>set example_matrix. row \<noteq> []"
    by (simp_all add: example_matrix_def)
  from markov_chain_in_bounds[OF this(1-3) square_example this(4) discrete_in_range_tick,
      of "0::nat"] tick_chain
  show ?thesis by (simp add: list_all_iff)
qed

subsection \<open>Parameter validation\<close>

lemma rw_loop_errors:
  "rw_loop d n i ps g = Inl e \<Longrightarrow> e = OutOfBounds \<or> e = SignedOverflow"
proof (induction d n i ps g rule: rw_loop.induct)
  case (1 d n i ps g)
  show ?case
  proof (cases "i \<le> n")
    case False
    with "1.prems" show ?thesis by (subst (asm) rw_loop.simps) simp
  next
    case True
    obtain b g1 where dg: "d g = (b, g1)" by (cases "d g")
    define step :: int where "step = (if b then 1 else - 1)"
    show ?thesis
    proof (cases "vec_get ps (i - 1)")
      case (Inl e1)
      with "1.prems" True dg have "e = e1" by (subst (asm) rw_loop.simps) simp
      with Inl show ?thesis by (auto simp: vec_get_def split: if_splits)
    next
      case get: (Inr prev)
      show ?thesis
      proof (cases "int_add prev step")
        case (Inl e1)
        with "1.prems" True dg get have "e = e1"
          by (subst (asm) rw_loop.simps) (simp add: step_def)
        with Inl show ?thesis by (auto simp: int_add_def split: if_splits)
      next
        case add: (Inr v)
        show ?thesis
        proof (cases "vec_set ps i v")
          case (Inl e1)
          with "1.prems" True dg get add have "e = e1"
            by (subst (asm) rw_loop.simps) (simp add: step_def)
          with Inl show ?thesis by (auto simp: vec_set_def split: if_splits)
        next
          case set: (Inr ps')
          with "1.prems" True dg get add have "rw_loop d n (i + 1) ps' g1 = Inl e"
            by (subst (asm) rw_loop.simps) (simp add: step_def)
          with "1.IH"[OF True dg[symmetric] step_def get add set] show ?thesis by simp
        qed
      qed
    qed
  qed
qed

lemma mc_loop_errors:
  "mc_loop discrete p n i x g = Inl e \<Longrightarrow> e = OutOfBounds"
proof (induction discrete p n i x g rule: mc_loop.induct)
  case (1 discrete p n i x g)
  show ?case
  proof (cases "i \<le> n")
    case False
    with "1.prems" show ?thesis by (subst (asm) mc_loop.simps) simp
  next
    case True
    show ?thesis
    proof (cases "vec_get x (i - 1)")
      case (Inl e1)
      with "1.prems" True have "e = e1" by (subst (asm) mc_loop.simps) simp
      with Inl show ?thesis by (auto simp: vec_get_def split: if_splits)
    next
      case get: (Inr s)
      show ?thesis
      proof (cases "vec_get p s")
        case (Inl e1)
        with "1.prems" True get have "e = e1" by (subst (asm) mc_loop.simps) simp
        with Inl show ?thesis by (auto simp: vec_get_def split: if_splits)
      next
        case getp: (Inr row)
        obtain j g1 where dg: "discrete row g = (j, g1)" by (cases "discrete row g")
        show ?thesis
        proof (cases "vec_set x i j")
          case (Inl e1)
          with "1.prems" True get getp dg have "e = e1"
            by (subst (asm) mc_loop.simps) simp
          with Inl show ?thesis by (auto simp: vec_set_def split: if_splits)
        next
          case set: (Inr x')
          with "1.prems" True get getp dg have "mc_loop discrete p n (i + 1) x' g1 = Inl e"
            by (subst (asm) mc_loop.simps) simp
          with "1.IH"[OF True get getp dg[symmetric] set] show ?thesis by simp
        qed
      qed
    qed
  qed
qed

lemma simRandomWalk_errors:
  "simRandomWalk bernoulli p n gen = Inl e \<Longrightarrow> e \<noteq> InvalidParameter"
  by (auto simp: simRandomWalk_def vec_new_def simp del: rw_loop.simps
      split: if_splits dest: rw_loop_errors)

lemma simMarkovChain_errors:
  "simMarkovChain discrete P x0 n gen = Inl e \<Longrightarrow> e \<noteq> InvalidParameter"
  by (auto simp: simMarkovChain_def vec_new_def vec_set_def simp del: mc_loop.simps
      split: if_splits dest: mc_loop_errors)

lemma simMarkovChain_negative:
  "n < - 1 \<Longrightarrow> simMarkovChain discrete P x0 n gen = Inl LengthError"
  by (simp add: simMarkovChain_def vec_new_def INT_MAX_def)

lemma poisson_first_gap:
  "T < dadd 0 (fst (e rng)) \<Longrightarrow> poisson_loop dadd e T 0 [] rng = Some ([], snd (e rng))"
  by (subst poisson_loop.simps) (auto split: prod.splits)

text \<open>
  C2, as the code has it. No generator validates its parameters and none ends in
  \<open>InvalidParameter\<close>, whatever it is called with. \<open>simRandomWalk\<close> and
  \<open>simMarkovChain\<close> called with fewer than \<open>- 1\<close> steps end in the length error of the
  vector constructor, without a path; \<open>simRandomWalk\<close> called with \<open>- 1\<close> steps returns
  the empty path; \<open>simulateHomogeneousPoisson\<close> draws from the engine whatever the rate is,
  and returns the empty sequence where the first gap, added to the clock \<open>0\<close>, exceeds
  \<open>T\<close>.
\<close>

theorem parameters_not_validated:
  "simRandomWalk bernoulli p n gen \<noteq> Inl InvalidParameter
   \<and> simMarkovChain discrete P x0 n gen \<noteq> Inl InvalidParameter
   \<and> (n < - 1 \<longrightarrow> simRandomWalk bernoulli p n gen = Inl LengthError
                  \<and> simMarkovChain discrete P x0 n gen = Inl LengthError)
   \<and> simRandomWalk bernoulli p (- 1) gen = Inr ([], gen)
   \<and> (T < dadd 0 (fst (expDist lambda rng)) \<longrightarrow>
        simulateHomogeneousPoisson dadd expDist lambda T rng
          = Some ([], snd (expDist lambda rng)))"
proof (intro conjI impI)
  show "simRandomWalk bernoulli p n gen \<noteq> Inl InvalidParameter"
    using simRandomWalk_errors[of bernoulli p n gen InvalidParameter] by blast
  show "simMarkovChain discrete P x0 n gen \<noteq> Inl InvalidParameter"
    using simMarkovChain_errors[of discrete P x0 n gen InvalidParameter] by blast
  show "simRandomWalk bernoulli p (- 1) gen = Inr ([], gen)"
    by (rule simRandomWalk_minus_one)
next
  assume "n < - 1"
  then show "simRandomWalk bernoulli p n gen = Inl LengthError"
    and "simMarkovChain discrete P x0 n gen = Inl LengthError"
    by (simp_all add: simRandomWalk_negative simMarkovChain_negative)
next
  assume "T < dadd 0 (fst (expDist lambda rng))"
  then show "simulateHomogeneousPoisson dadd expDist lambda T rng
               = Some ([], snd (expDist lambda rng))"
    by (simp add: simulateHomogeneousPoisson_def poisson_first_gap)
qed

theorem parameters_not_validated_witness:
  "simRandomWalk tick_bernoulli (1 / 2) (- 2) (0::nat) = Inl LengthError
   \<and> simMarkovChain tick_discrete example_matrix 0 (- 2) (0::nat) = Inl LengthError
   \<and> simulateHomogeneousPoisson (+) tick_exp (- 1) (- 2) (0::nat) = Some ([], 1)"
proof -
  have "(- 2 :: int) < - 1" by simp
  moreover have "(- 2 :: real) < 0 + fst (tick_exp (- 1) (0::nat))" by (simp add: tick_exp_def)
  moreover note parameters_not_validated[of tick_bernoulli "1 / 2" "- 2" "0::nat" tick_discrete
      example_matrix 0 "- 2" "(+)" tick_exp "- 1" "0::nat"]
  ultimately show ?thesis by (simp add: tick_exp_def)
qed

text \<open>
  C2 as stated fails: a negative step count is no error. \<open>simRandomWalk\<close> with \<open>- 1\<close>
  steps builds a vector of size \<open>0\<close>, skips the loop and returns the empty path.
\<close>

theorem negative_steps_return_a_path:
  "simRandomWalk tick_bernoulli (1 / 2) (- 1) (0::nat) = Inr ([], 0)
   \<and> simRandomWalk tick_bernoulli (1 / 2) (- 1) (0::nat) \<noteq> Inl InvalidParameter"
  by (simp add: simRandomWalk_def vec_new_def INT_MAX_def)


subsection \<open>Engine consumption\<close>









end
